theory Spec2Isabelle
  imports Main
begin

section \<open>The LRU cache of \<^verbatim>\<open>src/LRUCache.js\<close>\<close>

text \<open>
  The module builds a cache object from a hash index (\<^verbatim>\<open>__keys\<close>, key to entry) and a
  doubly linked chain of entry objects (\<^verbatim>\<open>older\<close>/\<^verbatim>\<open>newer\<close>), with
  \<^verbatim>\<open>__oldest\<close> and \<^verbatim>\<open>__newest\<close> pointing at its two ends. Entry objects are shared
  between the index and the chain and are mutated in place, so the model keeps them in an
  explicit object store: a total function from addresses to entries together with the
  next unused address. A JavaScript reference is never dangling, hence the store is total;
  \<^verbatim>\<open>null\<close> is \<open>None\<close>.

  Scope of the model. Counters are unbounded naturals (the doubles of JavaScript count
  exactly up to \<open>2^53\<close>). A key is the property name it converts to, and the index is
  modelled as the table of the properties that \<^verbatim>\<open>put\<close> has stored in \<^verbatim>\<open>__keys\<close>. The
  source's \<^verbatim>\<open>__keys\<close> is a plain object \<^verbatim>\<open>{}\<close>, read as \<^verbatim>\<open>this.__keys[key]\<close> with no
  own-property test: at a name that every object inherits from \<^verbatim>\<open>Object.prototype\<close>
  (\<^verbatim>\<open>toString\<close>, \<^verbatim>\<open>constructor\<close>, \<^verbatim>\<open>valueOf\<close>, \<^verbatim>\<open>hasOwnProperty\<close>,
  \<^verbatim>\<open>__proto__\<close> and the like) the code finds the inherited value where this table has
  nothing, and \<^verbatim>\<open>this.__keys['__proto__'] = entry\<close> stores no property. The definitions
  of \<^verbatim>\<open>get\<close>, \<^verbatim>\<open>peek\<close> and \<^verbatim>\<open>put\<close> describe the code at every other key. What the
  code does at an inherited name is recorded under C8.
\<close>

subsection \<open>JavaScript values that reach the module\<close>

datatype jsval =
    JUndefined
  | JNull
  | JBool bool
  | JNum int
  | JNaN
  | JStr string
  | JObj "(string \<times> jsval) list"

datatype error = TypeError | NonTermination

text \<open>Truthiness, as tested by \<^verbatim>\<open>||\<close>, \<^verbatim>\<open>&&\<close>, \<^verbatim>\<open>if\<close> and \<^verbatim>\<open>?:\<close>.\<close>

fun truthy :: "jsval \<Rightarrow> bool" where
  "truthy JUndefined = False"
| "truthy JNull = False"
| "truthy (JBool b) = b"
| "truthy (JNum n) = (n \<noteq> 0)"
| "truthy JNaN = False"
| "truthy (JStr s) = (s \<noteq> [])"
| "truthy (JObj ps) = True"

text \<open>\<^verbatim>\<open>typeof v === 'object'\<close> holds of objects and of \<^verbatim>\<open>null\<close>.\<close>

fun typeof_object :: "jsval \<Rightarrow> bool" where
  "typeof_object (JObj ps) = True"
| "typeof_object JNull = True"
| "typeof_object v = False"

text \<open>Reading a property: a \<^verbatim>\<open>TypeError\<close> on \<^verbatim>\<open>undefined\<close> and \<^verbatim>\<open>null\<close>,
  \<^verbatim>\<open>undefined\<close> when the property is missing.\<close>

fun get_prop :: "jsval \<Rightarrow> string \<Rightarrow> error + jsval" where
  "get_prop JUndefined p = Inl TypeError"
| "get_prop JNull p = Inl TypeError"
| "get_prop (JObj ps) p = Inr (case map_of ps p of None \<Rightarrow> JUndefined | Some v \<Rightarrow> v)"
| "get_prop v p = Inr JUndefined"

subsection \<open>Entries, the object store and the cache object\<close>

type_synonym addr = nat

text \<open>\<^verbatim>\<open>createCacheEntry\<close>: the field \<open>val\<close> is the source's \<^verbatim>\<open>value\<close>.\<close>

record ('k, 'v) entry =
  key :: 'k
  val :: 'v
  older :: "addr option"
  newer :: "addr option"

definition createCacheEntry ::
  "'k \<Rightarrow> 'v \<Rightarrow> addr option \<Rightarrow> addr option \<Rightarrow> ('k, 'v) entry" where
  "createCacheEntry k v od nw = \<lparr>key = k, val = v, older = od, newer = nw\<rparr>"

type_synonym ('k, 'v) store = "(addr \<Rightarrow> ('k, 'v) entry) \<times> addr"

text \<open>The fields \<open>f_x\<close> are the source's \<^verbatim>\<open>this.__x\<close>; \<open>heap\<close> and \<open>nxt\<close> are the
  object store.\<close>

record ('k, 'v) lru =
  f_maxSize :: jsval
  f_size :: nat
  f_keys :: "'k \<rightharpoonup> addr"
  f_oldest :: "addr option"
  f_newest :: "addr option"
  f_hits :: nat
  f_misses :: nat
  heap :: "addr \<Rightarrow> ('k, 'v) entry"
  nxt :: addr

text \<open>What a method hands back: \<^verbatim>\<open>undefined\<close>, a stored value, or a reference to an
  entry object.\<close>

datatype 'v ret = Undefined | Value 'v | EntryRef addr

subsection \<open>Construction\<close>

definition initLRU :: "jsval \<Rightarrow> ('k, 'v) store \<Rightarrow> error + ('k, 'v) lru" where
  "initLRU config st =
     (case get_prop config ''maxSize'' of
        Inl e \<Rightarrow> Inl e
      | Inr m \<Rightarrow>
          Inr \<lparr>f_maxSize = (if truthy m then m else JNum 4),
               f_size = 0,
               f_keys = Map.empty,
               f_oldest = None,
               f_newest = None,
               f_hits = 0,
               f_misses = 0,
               heap = fst st,
               nxt = snd st\<rparr>)"

text \<open>\<^verbatim>\<open>create\<close>: the new object is initialised only under the guard; \<open>None\<close> is the
  object on which \<^verbatim>\<open>initLRU\<close> never ran, all of whose fields read \<^verbatim>\<open>undefined\<close>.\<close>

definition create :: "jsval \<Rightarrow> ('k, 'v) store \<Rightarrow> error + ('k, 'v) lru option" where
  "create config st =
     (if truthy config \<and> typeof_object config
      then (case initLRU config st of Inl e \<Rightarrow> Inl e | Inr c \<Rightarrow> Inr (Some c))
      else Inr None)"

subsection \<open>The operations\<close>

text \<open>Each statement of the source that writes a field of an entry is one update of the
  store, reading its operands from the store as it is at that point, so that two
  references to the same object see each other's writes. \<^verbatim>\<open>entry === this.__newest\<close>
  compares references; \<^verbatim>\<open>if (entry.newer)\<close> tests a reference against \<^verbatim>\<open>null\<close>.\<close>

definition get :: "'k \<Rightarrow> ('k, 'v) lru \<Rightarrow> 'v ret \<times> ('k, 'v) lru" where
  "get k c =
     (case f_keys c k of
        None \<Rightarrow> (Undefined, c\<lparr>f_misses := f_misses c + 1\<rparr>)
      | Some e \<Rightarrow>
          if Some e = f_newest c
          then (Value (val (heap c e)), c\<lparr>f_hits := f_hits c + 1\<rparr>)
          else
            let h0 = heap c;
                (h1, oldest1) =
                  (case newer (h0 e) of
                     Some n \<Rightarrow>
                       (h0(n := (h0 n)\<lparr>older := older (h0 e)\<rparr>),
                        if Some e = f_oldest c then Some n else f_oldest c)
                   | None \<Rightarrow> (h0, f_oldest c));
                h2 =
                  (case older (h1 e) of
                     Some p \<Rightarrow> h1(p := (h1 p)\<lparr>newer := newer (h1 e)\<rparr>)
                   | None \<Rightarrow> h1);
                h3 = h2(e := (h2 e)\<lparr>newer := None\<rparr>);
                h4 = h3(e := (h3 e)\<lparr>older := f_newest c\<rparr>);
                h5 =
                  (case f_newest c of
                     Some w \<Rightarrow> h4(w := (h4 w)\<lparr>newer := Some e\<rparr>)
                   | None \<Rightarrow> h4)
            in (Value (val (h5 e)),
                c\<lparr>f_oldest := oldest1, f_newest := Some e,
                  f_hits := f_hits c + 1, heap := h5\<rparr>))"

text \<open>\<^verbatim>\<open>put\<close> allocates the new entry at the next unused address. The test
  \<^verbatim>\<open>this.__size === this.__maxSize\<close> is strict equality of a number with whatever
  value the capacity is. In the eviction branch \<^verbatim>\<open>removedEntry.newer\<close> and
  \<^verbatim>\<open>this.__oldest.older = null\<close> dereference without a test: on \<^verbatim>\<open>null\<close> they
  throw, and the call ends with \<^verbatim>\<open>TypeError\<close>.\<close>

definition put :: "'k \<Rightarrow> 'v \<Rightarrow> ('k, 'v) lru \<Rightarrow> error + ('v ret \<times> ('k, 'v) lru)" where
  "put k v c =
     (let oldEntry = f_newest c;
          e = nxt c;
          h0 = (heap c)(e := createCacheEntry k v oldEntry None);
          keys1 = (f_keys c)(k \<mapsto> e);
          (h1, oldest1) =
            (case oldEntry of
               Some w \<Rightarrow> (h0(w := (h0 w)\<lparr>newer := Some e\<rparr>), f_oldest c)
             | None \<Rightarrow> (h0, Some e))
      in if JNum (int (f_size c)) = f_maxSize c
         then
           (case oldest1 of
              None \<Rightarrow> Inl TypeError
            | Some r \<Rightarrow>
                (case newer (h1 r) of
                   None \<Rightarrow> Inl TypeError
                 | Some n \<Rightarrow>
                     let h2 = h1(n := (h1 n)\<lparr>older := None\<rparr>);
                         h3 = h2(r := (h2 r)\<lparr>newer := None\<rparr>);
                         h4 = h3(r := (h3 r)\<lparr>older := None\<rparr>)
                     in Inr (Value (val (h4 r)),
                             c\<lparr>f_keys := keys1(key (h4 r) := None),
                               f_oldest := Some n, f_newest := Some e,
                               heap := h4, nxt := Suc e\<rparr>)))
         else
           Inr (Undefined,
                c\<lparr>f_size := f_size c + 1, f_keys := keys1, f_oldest := oldest1,
                  f_newest := Some e, heap := h1, nxt := Suc e\<rparr>))"

definition clearAll :: "('k, 'v) lru \<Rightarrow> ('k, 'v) lru" where
  "clearAll c =
     c\<lparr>f_size := 0, f_hits := 0, f_misses := 0, f_newest := None, f_oldest := None,
       f_keys := Map.empty\<rparr>"

definition size_lru :: "('k, 'v) lru \<Rightarrow> nat" where
  "size_lru c = f_size c"

definition hits :: "('k, 'v) lru \<Rightarrow> nat" where
  "hits c = f_hits c"

definition misses :: "('k, 'v) lru \<Rightarrow> nat" where
  "misses c = f_misses c"

text \<open>\<^verbatim>\<open>peek\<close> returns what the index holds: the entry object itself.\<close>

definition peek :: "'k \<Rightarrow> ('k, 'v) lru \<Rightarrow> 'v ret" where
  "peek k c = (case f_keys c k of None \<Rightarrow> Undefined | Some e \<Rightarrow> EntryRef e)"

subsection \<open>The traversals\<close>

text \<open>Each of \<^verbatim>\<open>keys\<close>, \<^verbatim>\<open>values\<close> and \<^verbatim>\<open>forEach\<close> has its own
  \<^verbatim>\<open>while (entry)\<close> loop along \<^verbatim>\<open>older\<close>. On a cyclic chain the loop does not
  return; that is the result \<open>None\<close>.\<close>

partial_function (option) keys_loop ::
  "(addr \<Rightarrow> ('k, 'v) entry) \<Rightarrow> addr option \<Rightarrow> 'k list \<Rightarrow> 'k list option" where
  "keys_loop h entry ks =
     (case entry of
        None \<Rightarrow> Some ks
      | Some a \<Rightarrow> keys_loop h (older (h a)) (ks @ [key (h a)]))"

definition keys_lru :: "('k, 'v) lru \<Rightarrow> 'k list option" where
  "keys_lru c = keys_loop (heap c) (f_newest c) []"

partial_function (option) values_loop ::
  "(addr \<Rightarrow> ('k, 'v) entry) \<Rightarrow> addr option \<Rightarrow> 'v list \<Rightarrow> 'v list option" where
  "values_loop h entry vs =
     (case entry of
        None \<Rightarrow> Some vs
      | Some a \<Rightarrow> values_loop h (older (h a)) (vs @ [val (h a)]))"

definition values_lru :: "('k, 'v) lru \<Rightarrow> 'v list option" where
  "values_lru c = values_loop (heap c) (f_newest c) []"

text \<open>\<^verbatim>\<open>forEach(fn, context)\<close>. The visitor is a function of the caller's: it may hold
  the cache in its closure and call its methods. It is modelled by its effect on the pair
  of the cache (with the object store) and the caller's own state \<open>'s\<close>, given the
  receiver (\<^verbatim>\<open>this\<close>) and the argument list of the call. \<^verbatim>\<open>fn.call(context, v)\<close> binds
  the receiver, the plain call \<^verbatim>\<open>fn(v)\<close> leaves it unbound. The loop reads
  \<^verbatim>\<open>entry.value\<close> before the call and \<^verbatim>\<open>entry.older\<close> after it, from the store as the
  visitor left it. A visitor that throws is not modelled.\<close>

datatype receiver = Unbound | Bound jsval

type_synonym ('k, 'v, 's) visitor =
  "receiver \<Rightarrow> 'v list \<Rightarrow> ('k, 'v) lru \<times> 's \<Rightarrow> ('k, 'v) lru \<times> 's"

definition call_visitor ::
  "('k, 'v, 's) visitor \<Rightarrow> jsval \<Rightarrow> 'v \<Rightarrow> ('k, 'v) lru \<times> 's \<Rightarrow> ('k, 'v) lru \<times> 's" where
  "call_visitor fn context v w =
     (if truthy context then fn (Bound context) [v] w else fn Unbound [v] w)"

partial_function (option) forEach_loop ::
  "('k, 'v, 's) visitor \<Rightarrow> jsval \<Rightarrow> addr option \<Rightarrow> ('k, 'v) lru \<times> 's \<Rightarrow>
   (('k, 'v) lru \<times> 's) option"
  where
  "forEach_loop fn context entry w =
     (case entry of
        None \<Rightarrow> Some w
      | Some a \<Rightarrow>
          let w' = call_visitor fn context (val (heap (fst w) a)) w
          in forEach_loop fn context (older (heap (fst w') a)) w')"

definition forEach ::
  "('k, 'v, 's) visitor \<Rightarrow> jsval \<Rightarrow> ('k, 'v) lru \<Rightarrow> 's \<Rightarrow> (('k, 'v) lru \<times> 's) option" where
  "forEach fn context c s = forEach_loop fn context (f_newest c) (c, s)"

subsection \<open>Sequences of calls\<close>

text \<open>A client program is a list of calls on one cache object; each call yields what the
  method returns. A \<^verbatim>\<open>TypeError\<close> or a loop that does not return ends the run.\<close>

datatype ('k, 'v) op =
    Get 'k | Put 'k 'v | Peek 'k | ClearAll | Size | Hits | Misses | Keys | Values

datatype ('k, 'v) out =
    Ret "'v ret" | Count nat | KeyList "'k list" | ValueList "'v list"

fun step :: "('k, 'v) op \<Rightarrow> ('k, 'v) lru \<Rightarrow> error + (('k, 'v) out \<times> ('k, 'v) lru)" where
  "step (Get k) c = (case get k c of (r, c') \<Rightarrow> Inr (Ret r, c'))"
| "step (Put k v) c = (case put k v c of Inl e \<Rightarrow> Inl e | Inr (r, c') \<Rightarrow> Inr (Ret r, c'))"
| "step (Peek k) c = Inr (Ret (peek k c), c)"
| "step ClearAll c = Inr (Ret Undefined, clearAll c)"
| "step Size c = Inr (Count (size_lru c), c)"
| "step Hits c = Inr (Count (hits c), c)"
| "step Misses c = Inr (Count (misses c), c)"
| "step Keys c =
     (case keys_lru c of None \<Rightarrow> Inl NonTermination | Some ks \<Rightarrow> Inr (KeyList ks, c))"
| "step Values c =
     (case values_lru c of None \<Rightarrow> Inl NonTermination | Some vs \<Rightarrow> Inr (ValueList vs, c))"

fun run :: "('k, 'v) op list \<Rightarrow> ('k, 'v) lru \<Rightarrow> error + (('k, 'v) out list \<times> ('k, 'v) lru)"
  where
  "run [] c = Inr ([], c)"
| "run (x # xs) c =
     (case step x c of
        Inl e \<Rightarrow> Inl e
      | Inr (r, c') \<Rightarrow>
          (case run xs c' of Inl e \<Rightarrow> Inl e | Inr (rs, c'') \<Rightarrow> Inr (r # rs, c'')))"

subsection \<open>The shape of the chain\<close>

text \<open>\<open>dll h p xs q\<close>: the addresses \<open>xs\<close>, read from the newer to the older end, are
  linked to each other in both directions; \<open>p\<close> is what the first one has as
  \<^verbatim>\<open>newer\<close>, \<open>q\<close> what the last one has as \<^verbatim>\<open>older\<close>.\<close>

definition hd_or :: "addr list \<Rightarrow> addr option \<Rightarrow> addr option" where
  "hd_or xs q = (case xs of [] \<Rightarrow> q | a # _ \<Rightarrow> Some a)"

definition last_or :: "addr list \<Rightarrow> addr option \<Rightarrow> addr option" where
  "last_or xs p = (if xs = [] then p else Some (last xs))"

fun dll ::
  "(addr \<Rightarrow> ('k, 'v) entry) \<Rightarrow> addr option \<Rightarrow> addr list \<Rightarrow> addr option \<Rightarrow> bool" where
  "dll h p [] q = True"
| "dll h p (a # as) q =
     (newer (h a) = p \<and> older (h a) = hd_or as q \<and> dll h (Some a) as q)"

text \<open>\<open>nodes_from h p xs\<close>: starting at the reference \<open>p\<close> and following \<^verbatim>\<open>older\<close>
  until \<^verbatim>\<open>null\<close>, the entries met are \<open>xs\<close>, in that order. With \<open>p\<close> the
  \<^verbatim>\<open>__newest\<close> pointer this is the chain that the traversals walk.\<close>

fun nodes_from :: "(addr \<Rightarrow> ('k, 'v) entry) \<Rightarrow> addr option \<Rightarrow> addr list \<Rightarrow> bool" where
  "nodes_from h p [] = (p = None)"
| "nodes_from h p (a # as) = (p = Some a \<and> nodes_from h (older (h a)) as)"

text \<open>The invariant of a cache object whose chain is \<open>xs\<close> (newest first): the chain is
  well linked and without repetition, the two end pointers and the size agree with it,
  every indexed entry is on the chain under its own key, and the capacity is a truthy
  value (it came out of \<^verbatim>\<open>config.maxSize || 4\<close>).\<close>

definition inv :: "('k, 'v) lru \<Rightarrow> addr list \<Rightarrow> bool" where
  "inv c xs \<longleftrightarrow>
     distinct xs \<and> dll (heap c) None xs None \<and>
     f_newest c = hd_or xs None \<and> f_oldest c = last_or xs None \<and>
     f_size c = length xs \<and> (\<forall>a \<in> set xs. a < nxt c) \<and>
     (\<forall>k a. f_keys c k = Some a \<longrightarrow> a \<in> set xs \<and> key (heap c a) = k) \<and>
     truthy (f_maxSize c)"

subsection \<open>Observing a created object, and sample data\<close>

text \<open>Reading \<^verbatim>\<open>obj.__maxSize\<close> and calling a counter method (\<^verbatim>\<open>size\<close>,
  \<^verbatim>\<open>hits\<close>, \<^verbatim>\<open>misses\<close>) on the object that \<^verbatim>\<open>create\<close> returned: on the
  object that was never initialised both give \<^verbatim>\<open>undefined\<close>.\<close>

definition maxSize_of :: "('k, 'v) lru option \<Rightarrow> jsval" where
  "maxSize_of obj = (case obj of None \<Rightarrow> JUndefined | Some c \<Rightarrow> f_maxSize c)"

definition counter_of :: "(('k, 'v) lru \<Rightarrow> nat) \<Rightarrow> ('k, 'v) lru option \<Rightarrow> jsval" where
  "counter_of m obj = (case obj of None \<Rightarrow> JUndefined | Some c \<Rightarrow> JNum (int (m c)))"


definition promote_a :: "(string, int, (receiver \<times> int list) list) visitor" where
  "promote_a r args w = (snd (get ''a'' (fst w)), snd w @ [(r, args)])"

text \<open>An object store with nothing allocated, for caches from strings to integers.\<close>

definition store0 :: "(string, int) store" where
  "store0 = (\<lambda>a. createCacheEntry [] 0 None None, 0)"


definition sample1 :: "(string, int) lru" where
  "sample1 =
     \<lparr>f_maxSize = JNum 2, f_size = 1, f_keys = [''a'' \<mapsto> 0], f_oldest = Some 0,
      f_newest = Some 0, f_hits = 0, f_misses = 0,
      heap = (fst store0)(0 := createCacheEntry ''a'' 1 None None), nxt = 1\<rparr>"

definition sample2 :: "(string, int) lru" where
  "sample2 =
     \<lparr>f_maxSize = JNum 2, f_size = 2, f_keys = [''a'' \<mapsto> 0, ''b'' \<mapsto> 1], f_oldest = Some 0,
      f_newest = Some 1, f_hits = 0, f_misses = 0,
      heap = (fst store0)(0 := createCacheEntry ''a'' 1 None (Some 1),
                          1 := createCacheEntry ''b'' 2 (Some 0) None),
      nxt = 2\<rparr>"

section \<open>The chain invariant\<close>

subsection \<open>Linked segments\<close>

lemma hd_or_simps [simp]: "hd_or [] q = q" "hd_or (a # as) q = Some a"
  by (simp_all add: hd_or_def)

lemma last_or_simps [simp]: "last_or [] p = p" "last_or (as @ [a]) p = Some a"
  "as \<noteq> [] \<Longrightarrow> last_or as p = Some (last as)"
  by (simp_all add: last_or_def)

lemma last_or_Cons: "last_or (a # as) p = last_or as (Some a)"
  by (simp add: last_or_def)

lemma hd_or_append: "hd_or (xs @ ys) q = hd_or xs (hd_or ys q)"
  by (cases xs) simp_all

lemma dll_append:
  "dll h p (xs @ ys) q \<longleftrightarrow> dll h p xs (hd_or ys q) \<and> dll h (last_or xs p) ys q"
  by (induction xs arbitrary: p) (auto simp: hd_or_append last_or_Cons)

lemma dll_frame: "a \<notin> set xs \<Longrightarrow> dll (h(a := e)) p xs q = dll h p xs q"
  by (induction xs arbitrary: p) auto

lemma dll_set_newer_hd:
  "dll h p (a # as) q \<Longrightarrow> a \<notin> set as \<Longrightarrow> dll (h(a := (h a)\<lparr>newer := p'\<rparr>)) p' (a # as) q"
  by (simp add: dll_frame)

lemma dll_set_older_last:
  "dll h p (as @ [a]) q \<Longrightarrow> a \<notin> set as \<Longrightarrow> dll (h(a := (h a)\<lparr>older := q'\<rparr>)) p (as @ [a]) q'"
  by (induction as arbitrary: p) (auto simp: hd_or_append)

subsection \<open>\<^verbatim>\<open>put\<close> keeps the invariant\<close>

lemma inv_nonempty_full:
  "inv c xs \<Longrightarrow> JNum (int (f_size c)) = f_maxSize c \<Longrightarrow> xs \<noteq> []"
  by (auto simp: inv_def) (metis of_nat_0 truthy.simps(4))

lemma put_inv_grow:
  assumes "inv c xs" and "JNum (int (f_size c)) \<noteq> f_maxSize c"
  shows "\<exists>c'. put k v c = Inr (Undefined, c') \<and> inv c' (nxt c # xs)"
proof (cases xs)
  case Nil
  with assms show ?thesis
    by (auto simp: put_def inv_def Let_def createCacheEntry_def last_or_def)
next
  case (Cons w ws)
  with assms have fresh: "nxt c \<notin> set xs" and "w \<noteq> nxt c"
    by (auto simp: inv_def)
  with assms Cons show ?thesis
    by (auto simp: put_def inv_def Let_def createCacheEntry_def last_or_def dll_frame)
qed

lemma put_inv_evict:
  assumes "inv c xs" and full: "JNum (int (f_size c)) = f_maxSize c"
  shows "\<exists>c'. put k v c = Inr (Value (val (heap c (last xs))), c') \<and>
              inv c' (nxt c # butlast xs)"
proof -
  from assms have "xs \<noteq> []" by (rule inv_nonempty_full)
  then obtain ys r where xs: "xs = ys @ [r]" by (metis append_butlast_last_id)
  show ?thesis
  proof (cases ys)
    case Nil
    with assms xs show ?thesis
      by (auto simp: put_def inv_def Let_def createCacheEntry_def last_or_def)
  next
    case (Cons w ws)
    then obtain zs n where ys: "ys = zs @ [n]" by (metis append_butlast_last_id list.distinct(1))
    let ?h = "heap c" and ?e = "nxt c"
    from assms(1) xs have d: "distinct ys" "r \<notin> set ys" "?e \<notin> set ys" "?e \<noteq> r"
      and lt: "\<forall>a\<in>set ys. a < ?e"
      by (auto simp: inv_def)
    from d Cons have ne1: "?e \<noteq> w" "r \<noteq> w" "w \<notin> set ws" by auto
    from d ys have ne2: "?e \<noteq> n" "r \<noteq> n" "n \<notin> set zs" by auto
    note ne = ne1 ne2
    from assms(1) xs Cons ys have ends: "f_newest c = Some w" "f_oldest c = Some r"
      by (auto simp: inv_def)
    from assms(1) xs have "dll ?h None (ys @ [r]) None" by (simp add: inv_def)
    then have l1: "dll ?h None ys (Some r)" and r1: "newer (?h r) = Some n"
      by (auto simp: dll_append ys)
    define h0 where "h0 = ?h(?e := createCacheEntry k v (Some w) None)"
    define h1 where "h1 = h0(w := (h0 w)\<lparr>newer := Some ?e\<rparr>)"
    define h2 where "h2 = h1(n := (h1 n)\<lparr>older := None\<rparr>)"
    define h3 where "h3 = h2(r := (h2 r)\<lparr>newer := None\<rparr>)"
    define h4 where "h4 = h3(r := (h3 r)\<lparr>older := None\<rparr>)"
    have "dll h0 None (w # ws) (Some r)"
      using l1 d Cons by (simp add: dll_frame h0_def)
    then have l2: "dll h1 (Some ?e) (w # ws) (Some r)"
      unfolding h1_def by (rule dll_set_newer_hd) (rule ne)
    from l2 have l3: "dll h2 (Some ?e) ys None"
      unfolding h2_def using dll_set_older_last[of h1 "Some ?e" zs n "Some r" None] ne
      by (simp add: ys Cons[symmetric])
    from l3 d have l4: "dll h4 (Some ?e) ys None"
      by (simp add: h4_def h3_def dll_frame)
    have e4: "h4 ?e = createCacheEntry k v (Some w) None"
      using ne d by (simp add: h4_def h3_def h2_def h1_def h0_def)
    have keyp: "key (h4 a) = (if a = ?e then k else key (?h a))" for a
      using ne d by (auto simp: h4_def h3_def h2_def h1_def h0_def createCacheEntry_def)
    have valr: "val (h4 r) = val (?h r)"
      using ne d by (simp add: h4_def h3_def h2_def h1_def h0_def)
    have n1: "newer (h1 r) = Some n"
      using ne d r1 by (simp add: h1_def h0_def)
    have res: "put k v c = Inr (Value (val (h4 r)),
        c\<lparr>f_keys := ((f_keys c)(k \<mapsto> ?e))(key (h4 r) := None),
          f_oldest := Some n, f_newest := Some ?e, heap := h4, nxt := Suc ?e\<rparr>)"
      unfolding put_def Let_def ends
      by (simp add: full n1 h0_def[symmetric] h1_def[symmetric] h2_def[symmetric]
            h3_def[symmetric] h4_def[symmetric])
    have idx: "a \<in> set xs \<and> key (?h a) = k'" if "f_keys c k' = Some a" for k' a
      using assms(1) that by (simp add: inv_def)
    let ?c' = "c\<lparr>f_keys := ((f_keys c)(k \<mapsto> ?e))(key (h4 r) := None),
          f_oldest := Some n, f_newest := Some ?e, heap := h4, nxt := Suc ?e\<rparr>"
    have i1: "distinct (?e # ys)" using d by simp
    have i2: "dll (heap ?c') None (?e # ys) None"
      using l4 e4 Cons by (simp add: createCacheEntry_def)
    have i3: "f_newest ?c' = hd_or (?e # ys) None" by simp
    have i4: "f_oldest ?c' = last_or (?e # ys) None" by (simp add: ys last_or_def)
    have i5: "f_size ?c' = length (?e # ys)" using assms(1) xs by (simp add: inv_def)
    have i6: "\<forall>a\<in>set (?e # ys). a < nxt ?c'" using lt by (auto simp: less_Suc_eq)
    have i7: "a \<in> set (?e # ys) \<and> key (heap ?c' a) = k'" if "f_keys ?c' k' = Some a" for k' a
    proof (cases "k' = k")
      case True
      with that show ?thesis by (auto simp: keyp split: if_splits)
    next
      case False
      with that have k': "k' \<noteq> key (h4 r)" "f_keys c k' = Some a" by (auto split: if_splits)
      from idx[OF k'(2)] have a: "a \<in> set xs" "key (?h a) = k'" by auto
      with k' d have "a \<noteq> r" by (auto simp: keyp)
      with a xs d show ?thesis by (auto simp: keyp)
    qed
    have i8: "truthy (f_maxSize ?c')" using assms(1) by (simp add: inv_def)
    have "inv ?c' (?e # ys)"
      unfolding inv_def using i1 i2 i3 i4 i5 i6 i7 i8 by blast
    with res valr show ?thesis by (auto simp: xs)
  qed
qed

subsection \<open>\<^verbatim>\<open>get\<close> keeps the invariant\<close>

lemma inv_counters:
  "inv (c\<lparr>f_hits := x\<rparr>) xs = inv c xs" "inv (c\<lparr>f_misses := y\<rparr>) xs = inv c xs"
  by (simp_all add: inv_def)

lemma get_relink_inv:
  assumes "inv c xs" and k: "f_keys c k = Some e" and nn: "f_newest c \<noteq> Some e"
  shows "fst (get k c) = Value (val (heap c e)) \<and> inv (snd (get k c)) (e # remove1 e xs)"
proof -
  let ?h = "heap c"
  from assms(1) k have "e \<in> set xs" by (simp add: inv_def)
  then obtain ys zs where xs: "xs = ys @ e # zs" by (auto simp: in_set_conv_decomp)
  from assms(1) nn xs have "ys \<noteq> []" by (cases ys) (auto simp: inv_def)
  then obtain w ws where ysC: "ys = w # ws" by (cases ys) auto
  from \<open>ys \<noteq> []\<close> obtain as p where ysS: "ys = as @ [p]" by (metis append_butlast_last_id)
  from assms(1) xs have d: "distinct ys" "distinct zs" "e \<notin> set ys" "e \<notin> set zs"
      "set ys \<inter> set zs = {}"
    by (auto simp: inv_def)
  from d ysC have ne1: "w \<noteq> e" "w \<notin> set zs" "w \<notin> set ws" by auto
  from d ysS have ne2: "p \<noteq> e" "p \<notin> set zs" "p \<notin> set as" by auto
  note ne = ne1 ne2
  from assms(1) xs have "dll ?h None (ys @ e # zs) None" by (simp add: inv_def)
  then have lA: "dll ?h None ys (Some e)" and lB: "dll ?h (Some e) zs None"
    and en: "newer (?h e) = Some p" and eo: "older (?h e) = hd_or zs None"
    by (auto simp: dll_append ysS)
  from assms(1) xs ysC have nw: "f_newest c = Some w" by (simp add: inv_def)
  from assms(1) xs have old: "f_oldest c = (if zs = [] then Some e else Some (last zs))"
    by (simp add: inv_def last_or_def)
  define oldest1 where "oldest1 = (if Some e = f_oldest c then Some p else f_oldest c)"
  define h1 where "h1 = ?h(p := (?h p)\<lparr>older := older (?h e)\<rparr>)"
  define h2 where "h2 = (case older (h1 e) of
                     Some z \<Rightarrow> h1(z := (h1 z)\<lparr>newer := newer (h1 e)\<rparr>)
                   | None \<Rightarrow> h1)"
  define h3 where "h3 = h2(e := (h2 e)\<lparr>newer := None\<rparr>)"
  define h4 where "h4 = h3(e := (h3 e)\<lparr>older := Some w\<rparr>)"
  define h5 where "h5 = h4(w := (h4 w)\<lparr>newer := Some e\<rparr>)"
  let ?c' = "c\<lparr>f_oldest := oldest1, f_newest := Some e, f_hits := f_hits c + 1, heap := h5\<rparr>"
  have res: "get k c = (Value (val (h5 e)), ?c')"
    unfolding get_def Let_def h5_def h4_def h3_def h2_def h1_def oldest1_def
    using nn by (simp add: k nw en)
  have e1: "h1 e = ?h e" using ne by (simp add: h1_def)
  have h2': "h2 = (case zs of [] \<Rightarrow> h1 | z # _ \<Rightarrow> h1(z := (h1 z)\<lparr>newer := Some p\<rparr>))"
    by (simp add: h2_def e1 eo en hd_or_def split: list.splits)
  have A1: "dll h1 None ys (hd_or zs None)"
    unfolding h1_def eo ysS using lA ne by (intro dll_set_older_last) (simp_all add: ysS)
  have A2: "dll h2 None ys (hd_or zs None)"
    using A1 d by (auto simp: h2' dll_frame split: list.splits)
  have A5: "dll h5 (Some e) ys (hd_or zs None)"
    unfolding h5_def ysC
    by (rule dll_set_newer_hd[where p = None])
       (use A2 d ne in \<open>simp_all add: h4_def h3_def dll_frame ysC[symmetric]\<close>)
  have B1: "dll h1 (Some e) zs None" using lB ne by (simp add: h1_def dll_frame)
  have B2: "dll h2 (Some p) zs None"
  proof (cases zs)
    case Nil then show ?thesis by simp
  next
    case (Cons z zs')
    with d have "z \<notin> set zs'" by simp
    from dll_set_newer_hd[OF B1[unfolded Cons] this, of "Some p"]
    show ?thesis by (simp add: h2' Cons)
  qed
  have B5: "dll h5 (Some p) zs None"
    using B2 d ne by (simp add: h5_def h4_def h3_def dll_frame)
  have e5: "newer (h5 e) = None" "older (h5 e) = Some w"
    using ne by (simp_all add: h5_def h4_def h3_def)
  have keyp: "key (h5 a) = key (?h a)" "val (h5 a) = val (?h a)" for a
    by (auto simp: h5_def h4_def h3_def h2' h1_def split: list.splits)
  have rm: "remove1 e xs = ys @ zs" using d by (simp add: xs remove1_append)
  have lp: "last_or ys (Some e) = Some p" by (simp add: ysS)
  have hw: "hd_or (ys @ zs) None = Some w" by (simp add: ysC)
  have i2: "dll (heap ?c') None (e # ys @ zs) None"
    using A5 B5 e5 lp hw by (simp add: dll_append)
  have i4: "f_oldest ?c' = last_or (e # ys @ zs) None"
    using d by (auto simp: oldest1_def old last_or_def ysS)
  have "inv ?c' (e # ys @ zs)"
    unfolding inv_def using i2 i4 assms(1) d
    by (auto simp: xs keyp inv_def)
  with res show ?thesis by (simp add: rm keyp)
qed

lemma get_miss: "f_keys c k = None \<Longrightarrow> get k c = (Undefined, c\<lparr>f_misses := f_misses c + 1\<rparr>)"
  by (simp add: get_def)

lemma get_newest:
  "f_keys c k = Some e \<Longrightarrow> f_newest c = Some e \<Longrightarrow>
   get k c = (Value (val (heap c e)), c\<lparr>f_hits := f_hits c + 1\<rparr>)"
  by (simp add: get_def)

lemma get_hit_inv:
  assumes "inv c xs" and k: "f_keys c k = Some e"
  shows "fst (get k c) = Value (val (heap c e)) \<and> inv (snd (get k c)) (e # remove1 e xs)"
proof (cases "f_newest c = Some e")
  case True
  with assms(1) have "e # remove1 e xs = xs" by (cases xs) (auto simp: inv_def)
  with assms True show ?thesis by (simp add: get_newest inv_counters)
next
  case False
  with assms show ?thesis by (rule get_relink_inv)
qed

lemma get_inv: "inv c xs \<Longrightarrow> \<exists>xs'. inv (snd (get k c)) xs'"
proof (cases "f_keys c k")
  case None
  assume "inv c xs"
  with None show ?thesis by (auto simp: get_miss inv_counters)
next
  case (Some e)
  assume "inv c xs"
  from get_hit_inv[OF this Some] show ?thesis by blast
qed

lemma put_inv: "inv c xs \<Longrightarrow> \<exists>r c' xs'. put k v c = Inr (r, c') \<and> inv c' xs'"
proof (cases "JNum (int (f_size c)) = f_maxSize c")
  case True
  assume "inv c xs"
  from put_inv_evict[OF this True] show ?thesis by blast
next
  case False
  assume "inv c xs"
  from put_inv_grow[OF this False] show ?thesis by blast
qed

subsection \<open>Clearing, traversals and runs\<close>

lemma clearAll_inv: "truthy (f_maxSize c) \<Longrightarrow> inv (clearAll c) []"
  by (simp add: inv_def clearAll_def)

lemma keys_loop_dll:
  "dll h p xs None \<Longrightarrow> keys_loop h (hd_or xs None) ks = Some (ks @ map (\<lambda>a. key (h a)) xs)"
proof (induction xs arbitrary: p ks)
  case Nil
  show ?case by (subst keys_loop.simps) simp
next
  case (Cons a as)
  from Cons.prems have "older (h a) = hd_or as None" "dll h (Some a) as None" by simp_all
  with Cons.IH[of "Some a" "ks @ [key (h a)]"] show ?case
    by (subst keys_loop.simps) simp
qed

lemma values_loop_dll:
  "dll h p xs None \<Longrightarrow> values_loop h (hd_or xs None) vs = Some (vs @ map (\<lambda>a. val (h a)) xs)"
proof (induction xs arbitrary: p vs)
  case Nil
  show ?case by (subst values_loop.simps) simp
next
  case (Cons a as)
  from Cons.prems have "older (h a) = hd_or as None" "dll h (Some a) as None" by simp_all
  with Cons.IH[of "Some a" "vs @ [val (h a)]"] show ?case
    by (subst values_loop.simps) simp
qed

lemma dll_nodes_from: "dll h p xs None \<Longrightarrow> nodes_from h (hd_or xs None) xs"
  by (induction xs arbitrary: p) auto

lemma inv_nodes_from: "inv c xs \<Longrightarrow> nodes_from (heap c) (f_newest c) xs"
  using dll_nodes_from[of "heap c" None xs] by (simp add: inv_def)


lemma keys_lru_inv: "inv c xs \<Longrightarrow> keys_lru c = Some (map (\<lambda>a. key (heap c a)) xs)"
  using keys_loop_dll[of "heap c" None xs "[]"] by (simp add: inv_def keys_lru_def)

lemma values_lru_inv: "inv c xs \<Longrightarrow> values_lru c = Some (map (\<lambda>a. val (heap c a)) xs)"
  using values_loop_dll[of "heap c" None xs "[]"] by (simp add: inv_def values_lru_def)

lemma step_inv:
  assumes "inv c xs"
  shows "\<exists>r c' xs'. step x c = Inr (r, c') \<and> inv c' xs'"
proof (cases x)
  case (Get k)
  with get_inv[OF assms, of k] show ?thesis by (auto split: prod.splits)
next
  case (Put k v)
  with put_inv[OF assms, of k v] show ?thesis by auto
next
  case ClearAll
  with assms clearAll_inv[of c] show ?thesis by (auto simp: inv_def)
next
  case Keys
  with assms show ?thesis by (auto simp: keys_lru_inv)
next
  case Values
  with assms show ?thesis by (auto simp: values_lru_inv)
qed (use assms in auto)

lemma run_inv:
  "inv c xs \<Longrightarrow> \<exists>rs c' xs'. run ops c = Inr (rs, c') \<and> inv c' xs'"
proof (induction ops arbitrary: c xs)
  case Nil
  then show ?case by auto
next
  case (Cons x ops)
  from step_inv[OF Cons.prems, of x] obtain r c1 xs1
    where s: "step x c = Inr (r, c1)" and i: "inv c1 xs1" by blast
  from Cons.IH[OF i] obtain rs c2 xs2
    where "run ops c1 = Inr (rs, c2)" "inv c2 xs2" by blast
  with s show ?case by auto
qed

lemma create_Some_inv: "create config st = Inr (Some c) \<Longrightarrow> inv c []"
  by (cases config) (auto simp: create_def initLRU_def inv_def split: if_splits option.splits)

subsection \<open>Capacity\<close>

lemma step_maxSize: "step x c = Inr (r, c') \<Longrightarrow> f_maxSize c' = f_maxSize c"
  by (cases x)
     (auto simp: get_def put_def clearAll_def Let_def
           split: option.splits if_splits prod.splits sum.splits)

lemma step_bounded:
  "step x c = Inr (r, c') \<Longrightarrow> f_maxSize c = JNum n \<Longrightarrow> int (f_size c) \<le> n \<Longrightarrow>
   int (f_size c') \<le> n"
  by (cases x)
     (auto simp: get_def put_def clearAll_def Let_def
           split: option.splits if_splits prod.splits sum.splits)

lemma run_bounded:
  "run ops c = Inr (rs, c') \<Longrightarrow> f_maxSize c = JNum n \<Longrightarrow> int (f_size c) \<le> n \<Longrightarrow>
   f_maxSize c' = JNum n \<and> int (f_size c') \<le> n"
proof (induction ops arbitrary: c rs)
  case Nil
  then show ?case by simp
next
  case (Cons x ops)
  from Cons.prems(1) obtain r c1 rs1 where s: "step x c = Inr (r, c1)"
    and r: "run ops c1 = Inr (rs1, c')"
    by (auto split: sum.splits prod.splits)
  from step_maxSize[OF s] step_bounded[OF s Cons.prems(2,3)] Cons.prems(2)
  have "f_maxSize c1 = JNum n" "int (f_size c1) \<le> n" by simp_all
  from Cons.IH[OF r this] show ?case .
qed

lemma run_maxSize: "run ops c = Inr (rs, c') \<Longrightarrow> f_maxSize c' = f_maxSize c"
proof (induction ops arbitrary: c rs)
  case Nil
  then show ?case by simp
next
  case (Cons x ops)
  from Cons.prems obtain r c1 rs1 where s: "step x c = Inr (r, c1)"
    and r: "run ops c1 = Inr (rs1, c')"
    by (auto split: sum.splits prod.splits)
  from Cons.IH[OF r] step_maxSize[OF s] show ?case by simp
qed

subsection \<open>Caches reached from \<^verbatim>\<open>create\<close>\<close>

lemma reach_inv:
  assumes "create config st = Inr (Some c0)" and "run ops c0 = Inr (outs, c)"
  shows "\<exists>xs. inv c xs"
  using run_inv[OF create_Some_inv[OF assms(1)], of ops] assms(2) by auto

text \<open>In the model, where the index holds only what \<^verbatim>\<open>put\<close> stored, no call sequence
  on a created cache ends in a \<^verbatim>\<open>TypeError\<close> or fails to return. (In the code a
  \<^verbatim>\<open>get\<close> at an inherited name such as \<^verbatim>\<open>toString\<close> sets \<^verbatim>\<open>__newest\<close> and leaves
  \<^verbatim>\<open>__oldest\<close> \<^verbatim>\<open>null\<close>, after which a \<^verbatim>\<open>put\<close> at capacity throws.)\<close>

lemma reach_total:
  assumes "create config st = Inr (Some c0)"
  shows "\<exists>outs c. run ops c0 = Inr (outs, c)"
  using run_inv[OF create_Some_inv[OF assms], of ops] by blast

text \<open>The counters after \<^verbatim>\<open>get\<close>, by what the index holds for the key.\<close>

lemma get_counters:
  "(f_keys c k \<noteq> None \<longrightarrow>
      hits (snd (get k c)) = hits c + 1 \<and> misses (snd (get k c)) = misses c) \<and>
   (f_keys c k = None \<longrightarrow>
      get k c = (Undefined, c\<lparr>f_misses := misses c + 1\<rparr>) \<and>
      misses (snd (get k c)) = misses c + 1 \<and> hits (snd (get k c)) = hits c)"
  by (auto simp: get_def hits_def misses_def Let_def split: option.splits prod.splits)

lemma sample2_reached: "put ''b'' 2 sample1 = Inr (Undefined, sample2)"
  by (simp add: put_def sample1_def sample2_def Let_def createCacheEntry_def store0_def
        fun_upd_twist)

lemmas eval_defs = create_def initLRU_def put_def get_def peek_def clearAll_def size_lru_def
  hits_def misses_def keys_lru_def values_lru_def createCacheEntry_def Let_def
  keys_loop.simps values_loop.simps

section \<open>The claims\<close>

subsection \<open>C1: capacity\<close>

text \<open>
  C1. For every cache constructed with a positive integer \<^verbatim>\<open>maxSize\<close> \<open>n\<close> and every
  sequence of calls (\<^verbatim>\<open>put\<close> interleaved with any of the other methods),
  \<^verbatim>\<open>size() <= maxSize\<close> holds after the sequence. As the sequence is arbitrary, this
  covers the state after every single call. The bound rests only on how \<^verbatim>\<open>put\<close>
  updates \<^verbatim>\<open>__size\<close>: \<open>run_bounded\<close> holds from any state, whatever the index and the
  chain hold.
\<close>

theorem capacity_invariant:
  assumes "0 < n" and "map_of ps ''maxSize'' = Some (JNum n)"
  shows "\<exists>c0. create (JObj ps) st = Inr (Some c0) \<and> int (size_lru c0) \<le> n \<and>
           (\<forall>ops outs c. run ops c0 = Inr (outs, c) \<longrightarrow> int (size_lru c) \<le> n)"
proof -
  from assms obtain c0 where c0: "create (JObj ps) st = Inr (Some c0)"
    and m: "f_maxSize c0 = JNum n" "f_size c0 = 0"
    by (auto simp: create_def initLRU_def)
  have "int (size_lru c) \<le> n" if r: "run ops c0 = Inr (outs, c)" for ops outs c
  proof -
    from run_bounded[OF r m(1)] m(2) assms(1) have "int (f_size c) \<le> n" by simp
    then show ?thesis by (simp add: size_lru_def)
  qed
  moreover from m(2) assms(1) have "int (size_lru c0) \<le> n" by (simp add: size_lru_def)
  ultimately show ?thesis using c0 by blast
qed

text \<open>The theorem at \<^verbatim>\<open>maxSize = 2\<close> and five calls, three of them over capacity.\<close>

theorem capacity_invariant_witness:
  "(0::int) < 2 \<and> map_of [(''maxSize'', JNum 2)] ''maxSize'' = Some (JNum 2) \<and>
   (\<exists>c0. create (JObj [(''maxSize'', JNum 2)]) store0 = Inr (Some c0) \<and>
      (\<exists>outs c. run [Put ''a'' 1, Put ''b'' 2, Get ''a'', Put ''c'' 3, Put ''d'' 4] c0
                   = Inr (outs, c) \<and> int (size_lru c) \<le> 2))"
proof -
  have h: "(0::int) < 2" "map_of [(''maxSize'', JNum 2)] ''maxSize'' = Some (JNum 2)"
    by simp_all
  from capacity_invariant[OF h, of store0] obtain c0
    where c0: "create (JObj [(''maxSize'', JNum 2)]) store0 = Inr (Some c0)"
      and b: "\<forall>ops outs c. run ops c0 = Inr (outs, c) \<longrightarrow> int (size_lru c) \<le> 2"
    by blast
  from reach_total[OF c0] obtain outs c
    where r: "run [Put ''a'' 1, Put ''b'' 2, Get ''a'', Put ''c'' 3, Put ''d'' 4] c0
                = Inr (outs, c)"
    by blast
  from b r have "int (size_lru c) \<le> 2" by blast
  with h c0 r show ?thesis by blast
qed

subsection \<open>C2 and C3: eviction order\<close>

text \<open>
  C2. With \<^verbatim>\<open>maxSize = 2\<close>, the calls \<^verbatim>\<open>put(a,1)\<close>, \<^verbatim>\<open>put(b,2)\<close>, \<^verbatim>\<open>get(a)\<close>,
  \<^verbatim>\<open>put(c,3)\<close>: the \<^verbatim>\<open>get\<close> returns 1 and the last \<^verbatim>\<open>put\<close> returns the evicted
  value 2, that of \<^verbatim>\<open>b\<close>; afterwards the chain is \<^verbatim>\<open>[c, a]\<close> and \<^verbatim>\<open>b\<close> is gone from
  the index. The successful \<^verbatim>\<open>get\<close> made \<^verbatim>\<open>a\<close> the newest entry.
\<close>

theorem get_promotes_recency:
  "\<exists>c0. create (JObj [(''maxSize'', JNum 2)]) (st :: (string, int) store) = Inr (Some c0) \<and>
     map_sum id fst
       (run [Put ''a'' 1, Put ''b'' 2, Get ''a'', Put ''c'' 3, Keys, Peek ''b''] c0) =
     Inr [Ret Undefined, Ret Undefined, Ret (Value 1), Ret (Value 2),
          KeyList [''c'', ''a''], Ret Undefined]"
  by (simp add: eval_defs)

text \<open>
  C3. With \<^verbatim>\<open>maxSize = 2\<close>, the calls \<^verbatim>\<open>put(a,1)\<close>, \<^verbatim>\<open>put(b,2)\<close>, \<^verbatim>\<open>put(c,3)\<close>:
  the third \<^verbatim>\<open>put\<close> evicts the first key \<^verbatim>\<open>a\<close> and returns its value 1, and
  \<^verbatim>\<open>keys()\<close> is then \<^verbatim>\<open>[c, b]\<close>, newest first.
\<close>

theorem lru_eviction_order:
  "\<exists>c0. create (JObj [(''maxSize'', JNum 2)]) (st :: (string, int) store) = Inr (Some c0) \<and>
     map_sum id fst (run [Put ''a'' 1, Put ''b'' 2, Put ''c'' 3, Keys, Peek ''a''] c0) =
     Inr [Ret Undefined, Ret Undefined, Ret (Value 1), KeyList [''c'', ''b''],
          Ret Undefined]"
  by (simp add: eval_defs)

subsection \<open>C4 and C5: \<^verbatim>\<open>put\<close> on a key that is already present\<close>

text \<open>
  \<^verbatim>\<open>put\<close> always appends a new entry and points the index at it; the entry the key had
  before stays on the chain and keeps counting in \<^verbatim>\<open>__size\<close>. When that stale entry is
  evicted, \<^verbatim>\<open>delete this.__keys[removedEntry.key]\<close> removes the index slot of the key,
  which by then belongs to the newer entry.

  C4 (round trip: \<^verbatim>\<open>get(k)\<close> returns the value of the most recent \<^verbatim>\<open>put(k, v)\<close> while
  that entry has not been evicted). The code at \<^verbatim>\<open>maxSize = 2\<close> and \<^verbatim>\<open>put(a,1)\<close>,
  \<^verbatim>\<open>put(b,2)\<close>, \<^verbatim>\<open>put(a,3)\<close>, \<^verbatim>\<open>get(a)\<close>: the third \<^verbatim>\<open>put\<close> evicts the stale
  entry of \<^verbatim>\<open>a\<close> (returning 1), the entry \<^verbatim>\<open>(a,3)\<close> is on the chain
  (\<^verbatim>\<open>keys() = [a, b]\<close>, \<^verbatim>\<open>values() = [3, 2]\<close>), and \<^verbatim>\<open>get(a)\<close> returns
  \<^verbatim>\<open>undefined\<close>, counted as a miss.
\<close>

theorem round_trip_lost_after_overwrite:
  "\<exists>c0. create (JObj [(''maxSize'', JNum 2)]) store0 = Inr (Some c0) \<and>
     map_sum id fst
       (run [Put ''a'' 1, Put ''b'' 2, Put ''a'' 3, Keys, Values, Get ''a'', Misses] c0) =
     Inr [Ret Undefined, Ret Undefined, Ret (Value 1), KeyList [''a'', ''b''],
          ValueList [3, 2], Ret Undefined, Count 1]"
  by (simp add: eval_defs store0_def)

text \<open>
  C5 (\<^verbatim>\<open>size()\<close> never exceeds the number of distinct keys inserted and not evicted).
  The code at \<^verbatim>\<open>maxSize = 4\<close> and \<^verbatim>\<open>put(a,1)\<close>, \<^verbatim>\<open>put(a,2)\<close>: one distinct key, nothing
  evicted, and \<^verbatim>\<open>size()\<close> is 2; the chain lists the key twice.
\<close>

theorem size_counts_overwritten_entries:
  "\<exists>c0. create (JObj [(''maxSize'', JNum 4)]) store0 = Inr (Some c0) \<and>
     map_sum id fst (run [Put ''a'' 1, Put ''a'' 2, Size, Keys, Values, Get ''a''] c0) =
     Inr [Ret Undefined, Ret Undefined, Count 2, KeyList [''a'', ''a''], ValueList [2, 1],
          Ret (Value 2)]"
  by (simp add: eval_defs store0_def)

subsection \<open>C6: \<^verbatim>\<open>peek\<close>\<close>

text \<open>
  C6 (\<^verbatim>\<open>peek(k)\<close> returns the value stored for \<open>k\<close> and changes nothing). \<^verbatim>\<open>peek\<close> has
  no assignment, so the cache is unchanged, and an absent key gives \<^verbatim>\<open>undefined\<close>.
  For a present key the code returns \<^verbatim>\<open>this.__keys[key]\<close>, the entry object, where
  \<^verbatim>\<open>get\<close> returns \<^verbatim>\<open>entry.value\<close>: after \<^verbatim>\<open>put(a,1)\<close>, \<^verbatim>\<open>peek(a)\<close> is the reference to
  the entry at address 0, not the value 1, which \<^verbatim>\<open>get(a)\<close> returns.
\<close>

theorem peek_returns_entry:
  "\<exists>c0. create (JObj [(''maxSize'', JNum 4)]) store0 = Inr (Some c0) \<and>
     map_sum id fst (run [Put ''a'' 1, Peek ''a'', Peek ''z'', Get ''a''] c0) =
     Inr [Ret Undefined, Ret (EntryRef 0), Ret Undefined, Ret (Value 1)]"
  by (simp add: eval_defs store0_def)

subsection \<open>C7: construction\<close>

text \<open>
  C7, as stated, includes the case where the configuration itself is omitted. There the
  guard \<^verbatim>\<open>config && typeof config === 'object'\<close> of \<^verbatim>\<open>create\<close> fails and
  \<^verbatim>\<open>initLRU\<close> is not called: the object has no \<^verbatim>\<open>__maxSize\<close> (not 4), and \<^verbatim>\<open>size()\<close>
  returns \<^verbatim>\<open>undefined\<close> (not 0).
\<close>

theorem create_omitted_counterexample:
  "map_sum id maxSize_of (create JUndefined store0) = Inr JUndefined \<and>
   map_sum id (counter_of size_lru) (create JUndefined store0) = Inr JUndefined \<and>
   JUndefined \<noteq> JNum 4 \<and> JUndefined \<noteq> JNum 0"
  by (simp add: create_def maxSize_of_def counter_of_def)

text \<open>
  C7, amended. Given a configuration object, \<^verbatim>\<open>create\<close> yields a cache whose
  \<^verbatim>\<open>maxSize\<close> is 4 when the \<^verbatim>\<open>maxSize\<close> option is omitted or falsy and is the supplied
  value otherwise (so a supplied positive integer is kept), with \<^verbatim>\<open>size()\<close>,
  \<^verbatim>\<open>hits()\<close> and \<^verbatim>\<open>misses()\<close> all 0. Given no configuration, or one that is not an
  object, \<^verbatim>\<open>create\<close> returns the object without initialising it.
\<close>

theorem create_configured:
  "(\<exists>c. create (JObj ps) st = Inr (Some c) \<and>
        f_maxSize c =
          (case map_of ps ''maxSize'' of
             None \<Rightarrow> JNum 4
           | Some m \<Rightarrow> if truthy m then m else JNum 4) \<and>
        size_lru c = 0 \<and> hits c = 0 \<and> misses c = 0) \<and>
   create JUndefined st = Inr None \<and> create JNull st = Inr None \<and>
   create (JBool b) st = Inr None \<and> create (JNum i) st = Inr None \<and>
   create JNaN st = Inr None \<and> create (JStr s) st = Inr None"
  by (auto simp: create_def initLRU_def size_lru_def hits_def misses_def split: option.splits)

text \<open>The amended statement at \<^verbatim>\<open>{maxSize: 7}\<close>, \<^verbatim>\<open>{maxSize: 0}\<close> and \<^verbatim>\<open>{}\<close>.\<close>

theorem create_configured_witness:
  "(\<exists>c. create (JObj [(''maxSize'', JNum 7)]) store0 = Inr (Some c) \<and> f_maxSize c = JNum 7 \<and>
        size_lru c = 0 \<and> hits c = 0 \<and> misses c = 0) \<and>
   (\<exists>c. create (JObj [(''maxSize'', JNum 0)]) store0 = Inr (Some c) \<and> f_maxSize c = JNum 4) \<and>
   (\<exists>c. create (JObj []) store0 = Inr (Some c) \<and> f_maxSize c = JNum 4)"
  using create_configured[of "[(''maxSize'', JNum 7)]" store0]
        create_configured[of "[(''maxSize'', JNum 0)]" store0]
        create_configured[of "[]" store0]
  by simp blast

subsection \<open>C8: hit and miss accounting\<close>

text \<open>
  C8 (\<^verbatim>\<open>get\<close> on a present key adds 1 to \<^verbatim>\<open>hits\<close>; \<^verbatim>\<open>get\<close> on an absent key adds 1
  to \<^verbatim>\<open>misses\<close>, returns \<^verbatim>\<open>undefined\<close> and changes nothing else). The comment in
  \<^verbatim>\<open>get\<close> reads \<^verbatim>\<open>If there is no entry for this key, return undefined\<close>, and the test
  is \<^verbatim>\<open>entry === undefined\<close> on \<^verbatim>\<open>this.__keys[key]\<close>, with \<^verbatim>\<open>__keys\<close> a plain
  \<^verbatim>\<open>{}\<close>. On a fresh cache \<^verbatim>\<open>get('toString')\<close> therefore finds the function inherited
  from \<^verbatim>\<open>Object.prototype\<close>: it is not \<^verbatim>\<open>undefined\<close> and not \<^verbatim>\<open>__newest\<close>, its
  \<^verbatim>\<open>newer\<close> and \<^verbatim>\<open>older\<close> are \<^verbatim>\<open>undefined\<close>, so the code sets both to \<^verbatim>\<open>null\<close>,
  makes the function \<^verbatim>\<open>__newest\<close> (with \<^verbatim>\<open>__oldest\<close> still \<^verbatim>\<open>null\<close>), adds 1 to
  \<^verbatim>\<open>hits\<close> and none to \<^verbatim>\<open>misses\<close>. The key was never put, the call counts a hit and
  changes the chain. This input lies outside the index table of the model (see the scope
  above), so it is recorded here from the source; for the keys of the model the counters
  behave as \<open>get_counters\<close> says.
\<close>

subsection \<open>C9: \<^verbatim>\<open>clearAll\<close>\<close>

text \<open>
  C9. After any sequence of calls on a created cache, \<^verbatim>\<open>clearAll\<close> leaves \<^verbatim>\<open>size()\<close>,
  \<^verbatim>\<open>hits()\<close> and \<^verbatim>\<open>misses()\<close> at 0 and \<^verbatim>\<open>keys()\<close> empty, with \<^verbatim>\<open>maxSize\<close> as it was
  at construction. The cleared cache is the very object state that \<^verbatim>\<open>create\<close> builds for
  the same \<^verbatim>\<open>maxSize\<close> in the current object store, so every later call behaves as on a
  fresh cache; in particular a \<^verbatim>\<open>put\<close> returns \<^verbatim>\<open>undefined\<close> and leaves a cache of size
  1 holding just the new entry.
\<close>

theorem clear_resets:
  assumes "create config st = Inr (Some c0)" and "run ops c0 = Inr (outs, c)"
  shows "size_lru (clearAll c) = 0 \<and> hits (clearAll c) = 0 \<and> misses (clearAll c) = 0 \<and>
         keys_lru (clearAll c) = Some [] \<and> f_maxSize (clearAll c) = f_maxSize c0 \<and>
         create (JObj [(''maxSize'', f_maxSize c0)]) (heap c, nxt c) = Inr (Some (clearAll c)) \<and>
         (\<forall>k v. put k v (clearAll c) =
            Inr (Undefined,
                 \<lparr>f_maxSize = f_maxSize c0, f_size = 1, f_keys = [k \<mapsto> nxt c],
                  f_oldest = Some (nxt c), f_newest = Some (nxt c), f_hits = 0, f_misses = 0,
                  heap = (heap c)(nxt c := createCacheEntry k v None None),
                  nxt = Suc (nxt c)\<rparr>))"
proof -
  from create_Some_inv[OF assms(1)] have t: "truthy (f_maxSize c0)" by (simp add: inv_def)
  from run_maxSize[OF assms(2)] have m: "f_maxSize c = f_maxSize c0" .
  have k: "keys_lru (clearAll c) = Some []"
    by (simp add: keys_lru_def clearAll_def keys_loop.simps)
  have f: "create (JObj [(''maxSize'', f_maxSize c0)]) (heap c, nxt c) = Inr (Some (clearAll c))"
    using t m by (simp add: create_def initLRU_def clearAll_def)
  have p: "put k v (clearAll c) =
            Inr (Undefined,
                 \<lparr>f_maxSize = f_maxSize c0, f_size = 1, f_keys = [k \<mapsto> nxt c],
                  f_oldest = Some (nxt c), f_newest = Some (nxt c), f_hits = 0, f_misses = 0,
                  heap = (heap c)(nxt c := createCacheEntry k v None None),
                  nxt = Suc (nxt c)\<rparr>)" for k v
    using t m by (cases "f_maxSize c0") (auto simp: put_def clearAll_def Let_def)
  from k f p m show ?thesis
    by (simp add: size_lru_def hits_def misses_def clearAll_def)
qed

text \<open>The theorem after two puts, a hit and a miss on a cache of capacity 2.\<close>

theorem clear_resets_witness:
  "\<exists>c0 outs c.
     create (JObj [(''maxSize'', JNum 2)]) store0 = Inr (Some c0) \<and>
     run [Put ''a'' 1, Get ''a'', Get ''z'', Put ''b'' 2] c0 = Inr (outs, c) \<and>
     size_lru (clearAll c) = 0 \<and> hits (clearAll c) = 0 \<and> misses (clearAll c) = 0 \<and>
     keys_lru (clearAll c) = Some [] \<and> f_maxSize (clearAll c) = JNum 2 \<and>
     create (JObj [(''maxSize'', JNum 2)]) (heap c, nxt c) = Inr (Some (clearAll c))"
proof -
  obtain c0 where a: "create (JObj [(''maxSize'', JNum 2)]) store0 = Inr (Some c0)"
    and m: "f_maxSize c0 = JNum 2"
    by (simp add: create_def initLRU_def)
  from reach_total[OF a] obtain outs c
    where r: "run [Put ''a'' 1, Get ''a'', Get ''z'', Put ''b'' 2] c0 = Inr (outs, c)"
    by blast
  from clear_resets[OF a r] a r m show ?thesis by auto
qed

subsection \<open>C10: \<^verbatim>\<open>forEach\<close>\<close>




text \<open>Every cache of the model reached from \<^verbatim>\<open>create\<close> has such a chain, the one that
  \<^verbatim>\<open>values()\<close> lists.\<close>

lemma reached_chain:
  assumes "create config st = Inr (Some c0)" and "run ops c0 = Inr (outs, c)"
  shows "\<exists>xs. nodes_from (heap c) (f_newest c) xs \<and>
              values_lru c = Some (map (\<lambda>a. val (heap c a)) xs)"
proof -
  from reach_inv[OF assms] obtain xs where "inv c xs" ..
  with inv_nodes_from values_lru_inv show ?thesis by blast
qed

text \<open>Why the visitor must leave the cache alone: \<^verbatim>\<open>entry.older\<close> is read after the
  call. On the chain \<^verbatim>\<open>[b, a]\<close> a visitor that calls \<^verbatim>\<open>get('a')\<close> moves \<^verbatim>\<open>a\<close> in
  front of \<^verbatim>\<open>b\<close>, whose \<^verbatim>\<open>older\<close> becomes \<^verbatim>\<open>null\<close>: the loop ends after one call,
  for a chain of two entries.\<close>

lemma forEach_modifying_visitor:
  "nodes_from (heap sample2) (f_newest sample2) [1, 0] \<and>
   map_option snd (forEach promote_a JUndefined sample2 []) = Some [(Unbound, [2])]"
  by (simp add: sample2_def createCacheEntry_def forEach_def forEach_loop.simps call_visitor_def
        promote_a_def get_def Let_def store0_def)

end
